theory Spec2Isabelle
  imports Main "HOL-Library.AList"
begin

section \<open>JSON trees as the provider sees them\<close>

text \<open>
  The provider works on the trees that Go's \<^verbatim>\<open>json.Unmarshal\<close> builds in an
  \<^verbatim>\<open>interface{}\<close>: \<^verbatim>\<open>nil\<close>, \<^verbatim>\<open>bool\<close>, \<^verbatim>\<open>float64\<close>, \<^verbatim>\<open>string\<close>,
  \<^verbatim>\<open>[]interface{}\<close> and \<^verbatim>\<open>map[string]interface{}\<close>. A map is modelled as an
  association list whose keys are pairwise distinct (\<open>wf_json\<close> below); the order of
  the list stands for one of the iteration orders that Go may choose. Numbers are only
  ever compared for equality by the code modelled here, so they are modelled as integers.
\<close>

datatype json =
    JNull
  | JBool bool
  | JNum int
  | JStr string
  | JArr "json list"
  | JObj "(string \<times> json) list"

type_synonym obj = "(string \<times> json) list"

text \<open>Runtime panics of the Go code, as values.\<close>

datatype error =
    NilDereference    \<comment> \<open>\<^verbatim>\<open>reflect.TypeOf(nil).Kind()\<close>: method call on a nil \<^verbatim>\<open>reflect.Type\<close>\<close>
  | IndexOutOfRange   \<comment> \<open>slice index beyond the length\<close>

fun wf_json :: "json \<Rightarrow> bool" where
  "wf_json (JArr xs) = list_all wf_json xs"
| "wf_json (JObj kvs) = (distinct (map fst kvs) \<and> list_all (\<lambda>kv. wf_json (snd kv)) kvs)"
| "wf_json _ = True"

text \<open>
  \<^verbatim>\<open>v, ok := m[key]\<close>: the value read from a map is \<^verbatim>\<open>nil\<close> when the key is
  absent.
\<close>

definition lookupOrNil :: "obj \<Rightarrow> string \<Rightarrow> json" where
  "lookupOrNil m key = (case map_of m key of None \<Rightarrow> JNull | Some v \<Rightarrow> v)"

section \<open>String helpers of the Go standard library\<close>

text \<open>\<^verbatim>\<open>strings.HasPrefix(s, prefix)\<close>.\<close>

definition hasPrefix :: "string \<Rightarrow> string \<Rightarrow> bool" where
  "hasPrefix s pre = (take (length pre) s = pre)"

text \<open>\<^verbatim>\<open>strings.Split(s, ".")\<close>: a string with n dots has n + 1 components.\<close>

fun splitDot :: "string \<Rightarrow> string list" where
  "splitDot [] = [[]]"
| "splitDot (c # cs) =
     (if c = CHR ''.'' then [] # splitDot cs
      else (case splitDot cs of
              [] \<Rightarrow> [[c]]
            | w # ws \<Rightarrow> (c # w) # ws))"

text \<open>\<^verbatim>\<open>strings.Join(parts, ".")\<close>.\<close>

fun joinDot :: "string list \<Rightarrow> string" where
  "joinDot [] = []"
| "joinDot [w] = w"
| "joinDot (w # ws) = w @ ''.'' @ joinDot ws"

section \<open>The ignore-pattern matcher and the path descender\<close>

text \<open>
  \<^verbatim>\<open>matchesIgnorePattern\<close>: the loop returns at the first pattern that is the field
  name itself or \<^verbatim>\<open>*.\<close> followed by the field name. The slice \<^verbatim>\<open>pattern[2:]\<close> is
  guarded by the prefix test, so it is always in range.
\<close>

fun matchesIgnorePattern :: "string \<Rightarrow> string list \<Rightarrow> bool" where
  "matchesIgnorePattern fieldName [] = False"
| "matchesIgnorePattern fieldName (pattern # rest) =
     (if pattern = fieldName then True
      else if hasPrefix pattern ''*.'' \<and> drop 2 pattern = fieldName then True
      else matchesIgnorePattern fieldName rest)"

text \<open>
  \<^verbatim>\<open>_descendIgnoreList\<close>: the loop appends to \<^verbatim>\<open>newIgnoreList\<close>.
  \<^verbatim>\<open>pathComponents[0]\<close> is in range because \<^verbatim>\<open>strings.Split\<close> never returns an
  empty slice for a non-empty separator.
\<close>

fun descendLoop :: "string \<Rightarrow> string list \<Rightarrow> string list \<Rightarrow> string list" where
  "descendLoop descendPath [] newIgnoreList = newIgnoreList"
| "descendLoop descendPath (ignorePath # rest) newIgnoreList =
     (if hasPrefix ignorePath ''*.''
      then descendLoop descendPath rest (newIgnoreList @ [ignorePath])
      else (let pathComponents = splitDot ignorePath in
            if length pathComponents = 1 then descendLoop descendPath rest newIgnoreList
            else if hd pathComponents = descendPath
              then descendLoop descendPath rest
                     (newIgnoreList @ [joinDot (tl pathComponents)])
            else descendLoop descendPath rest newIgnoreList))"

definition descendIgnoreList :: "string \<Rightarrow> string list \<Rightarrow> string list" where
  "descendIgnoreList descendPath ignoreList = descendLoop descendPath ignoreList []"

section \<open>Deep equality\<close>

text \<open>
  \<^verbatim>\<open>reflect.DeepEqual\<close> on JSON trees: scalars by value, slices by length and
  position, maps by having the same number of keys and deeply equal values under each
  key of the first map.
\<close>

fun deepEqual :: "json \<Rightarrow> json \<Rightarrow> bool" where
  "deepEqual JNull b = (b = JNull)"
| "deepEqual (JBool x) b = (b = JBool x)"
| "deepEqual (JNum x) b = (b = JNum x)"
| "deepEqual (JStr x) b = (b = JStr x)"
| "deepEqual (JArr xs) b =
     (case b of JArr ys \<Rightarrow> list_all2 deepEqual xs ys | _ \<Rightarrow> False)"
| "deepEqual (JObj kvs) b =
     (case b of
        JObj kws \<Rightarrow>
          length kvs = length kws \<and>
          list_all (\<lambda>kv. case map_of kws (fst kv) of
                           None \<Rightarrow> False
                         | Some w \<Rightarrow> deepEqual (snd kv) w) kvs
      | _ \<Rightarrow> False)"

section \<open>The delta engine\<close>

text \<open>
  The second loop of \<^verbatim>\<open>getDelta\<close>: keys of the actual resource that the first loop
  has not visited and that are not ignored are additions.
\<close>

fun actualLoop :: "obj \<Rightarrow> string list \<Rightarrow> string list \<Rightarrow> obj \<times> bool \<Rightarrow> obj \<times> bool" where
  "actualLoop [] checkedKeys ignoreList st = st"
| "actualLoop ((key, valActual) # rest) checkedKeys ignoreList (modifiedResource, hasChanges) =
     (if key \<in> set checkedKeys then
        actualLoop rest checkedKeys ignoreList (modifiedResource, hasChanges)
      else if matchesIgnorePattern key ignoreList then
        actualLoop rest checkedKeys ignoreList (modifiedResource, hasChanges)
      else
        actualLoop rest checkedKeys ignoreList
          (AList.update key valActual modifiedResource, True))"

text \<open>
  \<^verbatim>\<open>getDelta\<close>. \<open>recordedLoop\<close> is the loop over the recorded resource with its
  three variables \<^verbatim>\<open>modifiedResource\<close>, \<^verbatim>\<open>hasChanges\<close> and \<^verbatim>\<open>checkedKeys\<close>;
  \<open>keyDelta\<close> is the body of that loop for one key: every path through the body
  assigns \<^verbatim>\<open>modifiedResource[key]\<close> exactly once and may set \<^verbatim>\<open>hasChanges\<close>, so
  the body returns the value assigned and whether the flag is set. \<open>elemLoop\<close> is
  the loop over the indices of two slices of the same length and \<open>elemDelta\<close> its
  body. An element that is \<^verbatim>\<open>nil\<close> makes \<^verbatim>\<open>reflect.TypeOf(elemRecorded)\<close> return
  a nil \<^verbatim>\<open>reflect.Type\<close>, and the call of \<^verbatim>\<open>Kind()\<close> on it panics.
\<close>

function (sequential) getDelta :: "obj \<Rightarrow> obj \<Rightarrow> string list \<Rightarrow> error + (obj \<times> bool)"
and recordedLoop ::
  "obj \<Rightarrow> obj \<Rightarrow> string list \<Rightarrow> obj \<times> bool \<times> string list \<Rightarrow> error + (obj \<times> bool \<times> string list)"
and keyDelta :: "string \<Rightarrow> json \<Rightarrow> obj \<Rightarrow> string list \<Rightarrow> error + (json \<times> bool)"
and elemLoop ::
  "json list \<Rightarrow> json list \<Rightarrow> string list \<Rightarrow> json list \<times> bool \<Rightarrow> error + (json list \<times> bool)"
and elemDelta :: "json \<Rightarrow> json \<Rightarrow> string list \<Rightarrow> error + (json \<times> bool)"
where
  "getDelta recordedResource actualResource ignoreList =
     (case recordedLoop recordedResource actualResource ignoreList ([], False, []) of
        Inl e \<Rightarrow> Inl e
      | Inr (modifiedResource, hasChanges, checkedKeys) \<Rightarrow>
          Inr (actualLoop actualResource checkedKeys ignoreList (modifiedResource, hasChanges)))"
| "recordedLoop [] actualResource ignoreList st = Inr st"
| "recordedLoop ((key, valRecorded) # rest) actualResource ignoreList
       (modifiedResource, hasChanges, checkedKeys) =
     (case keyDelta key valRecorded actualResource ignoreList of
        Inl e \<Rightarrow> Inl e
      | Inr (v, changed) \<Rightarrow>
          recordedLoop rest actualResource ignoreList
            (AList.update key v modifiedResource, hasChanges \<or> changed, key # checkedKeys))"
| "keyDelta key valRecorded actualResource ignoreList =
     (if matchesIgnorePattern key ignoreList then Inr (valRecorded, False)
      else
        let valActual = lookupOrNil actualResource key;
            actualHasKey = (map_of actualResource key \<noteq> None)
        in case valRecorded of
             JNull \<Rightarrow> Inr (valActual, actualHasKey \<and> valActual \<noteq> JNull)
           | JObj subMapA \<Rightarrow>
               (case valActual of
                  JObj subMapB \<Rightarrow>
                    (case getDelta subMapA subMapB (descendIgnoreList key ignoreList) of
                       Inl e \<Rightarrow> Inl e
                     | Inr (modifiedSubResource, hasChange) \<Rightarrow>
                         if hasChange then Inr (JObj modifiedSubResource, True)
                         else Inr (valRecorded, False))
                | _ \<Rightarrow> Inr (valActual, True))
           | JArr sliceRecorded \<Rightarrow>
               (case valActual of
                  JArr sliceActual \<Rightarrow>
                    if length sliceRecorded \<noteq> length sliceActual then Inr (valActual, True)
                    else
                      (case elemLoop sliceRecorded sliceActual
                              (descendIgnoreList key ignoreList) ([], False) of
                         Inl e \<Rightarrow> Inl e
                       | Inr (modifiedSlice, sliceHasChanges) \<Rightarrow>
                           if sliceHasChanges then Inr (JArr modifiedSlice, True)
                           else Inr (valRecorded, False))
                | _ \<Rightarrow>
                    if \<not> deepEqual valRecorded valActual then Inr (valActual, True)
                    else Inr (valRecorded, False))
           | _ \<Rightarrow>
               if valRecorded \<noteq> valActual then Inr (valActual, True)
               else Inr (valRecorded, False))"
| "elemLoop [] sliceActual deeperIgnoreList st = Inr st"
| "elemLoop (elemRecorded # restRecorded) [] deeperIgnoreList st = Inl IndexOutOfRange"
| "elemLoop (elemRecorded # restRecorded) (elemActual # restActual) deeperIgnoreList
       (modifiedSlice, sliceHasChanges) =
     (case elemDelta elemRecorded elemActual deeperIgnoreList of
        Inl e \<Rightarrow> Inl e
      | Inr (v, changed) \<Rightarrow>
          elemLoop restRecorded restActual deeperIgnoreList
            (modifiedSlice @ [v], sliceHasChanges \<or> changed))"
| "elemDelta elemRecorded elemActual deeperIgnoreList =
     (case elemRecorded of
        JNull \<Rightarrow> Inl NilDereference
      | JObj mapRecorded \<Rightarrow>
          (case elemActual of
             JObj mapActual \<Rightarrow>
               (case getDelta mapRecorded mapActual deeperIgnoreList of
                  Inl e \<Rightarrow> Inl e
                | Inr (modifiedElem, elemChanged) \<Rightarrow>
                    if elemChanged then Inr (JObj modifiedElem, True)
                    else Inr (elemRecorded, False))
           | _ \<Rightarrow>
               if \<not> deepEqual elemRecorded elemActual then Inr (elemActual, True)
               else Inr (elemRecorded, False))
      | _ \<Rightarrow>
          if \<not> deepEqual elemRecorded elemActual then Inr (elemActual, True)
          else Inr (elemRecorded, False))"
  by pat_completeness auto
termination
  by (relation "measure (\<lambda>x. case x of
        Inl (Inl (r, a, l)) \<Rightarrow> 4 * size (JObj r) + 2
      | Inl (Inr (r, a, l, st)) \<Rightarrow> 4 * size (JObj r) + 1
      | Inr (Inl (k, v, a, l)) \<Rightarrow> 4 * size v + 3
      | Inr (Inr (Inl (xs, ys, l, st))) \<Rightarrow> 4 * size (JArr xs) + 1
      | Inr (Inr (Inr (x, y, l))) \<Rightarrow> 4 * size x + 3)") auto

section \<open>The field projector\<close>

text \<open>
  \<^verbatim>\<open>filterIgnoredFields\<close> rebuilds a map without the keys that match at the current
  level; maps and the map elements of slices are filtered with the descended list. The
  argument is a map built by \<^verbatim>\<open>json.Unmarshal\<close>, which is never a nil map.
\<close>

function (sequential) filterIgnoredFields :: "obj \<Rightarrow> string list \<Rightarrow> obj"
and filterSlice :: "json list \<Rightarrow> string list \<Rightarrow> json list"
where
  "filterIgnoredFields [] ignoreList = []"
| "filterIgnoredFields ((key, val) # rest) ignoreList =
     (if matchesIgnorePattern key ignoreList then filterIgnoredFields rest ignoreList
      else
        (case val of
           JObj mapValue \<Rightarrow>
             (key, JObj (filterIgnoredFields mapValue (descendIgnoreList key ignoreList)))
               # filterIgnoredFields rest ignoreList
         | JArr sliceValue \<Rightarrow>
             (key, JArr (filterSlice sliceValue (descendIgnoreList key ignoreList)))
               # filterIgnoredFields rest ignoreList
         | _ \<Rightarrow> (key, val) # filterIgnoredFields rest ignoreList))"
| "filterSlice [] descendedIgnoreList = []"
| "filterSlice (elem # rest) descendedIgnoreList =
     (case elem of
        JObj mapElem \<Rightarrow> JObj (filterIgnoredFields mapElem descendedIgnoreList)
      | _ \<Rightarrow> elem) # filterSlice rest descendedIgnoreList"
  by pat_completeness auto
termination
  by (relation "measure (\<lambda>x. case x of
        Inl (d, l) \<Rightarrow> size (JObj d)
      | Inr (xs, l) \<Rightarrow> size (JArr xs))") auto

section \<open>The ignored-field merger\<close>

text \<open>
  \<^verbatim>\<open>mergeIgnoredFields\<close>: \<^verbatim>\<open>result\<close> starts as a copy of the desired map;
  \<open>mergeLoop\<close> is the loop over the map read from the API.
\<close>

function (sequential) mergeIgnoredFields :: "obj \<Rightarrow> obj \<Rightarrow> string list \<Rightarrow> obj"
and mergeLoop :: "obj \<Rightarrow> string list \<Rightarrow> obj \<Rightarrow> obj"
where
  "mergeIgnoredFields desired api ignoreList = mergeLoop api ignoreList desired"
| "mergeLoop [] ignoreList result = result"
| "mergeLoop ((key, apiValue) # rest) ignoreList result =
     (if matchesIgnorePattern key ignoreList then
        mergeLoop rest ignoreList (AList.update key apiValue result)
      else
        (case map_of result key of
           Some (JObj desiredMap) \<Rightarrow>
             (case apiValue of
                JObj apiMap \<Rightarrow>
                  mergeLoop rest ignoreList
                    (AList.update key
                       (JObj (mergeIgnoredFields desiredMap apiMap
                                (descendIgnoreList key ignoreList)))
                       result)
              | _ \<Rightarrow> mergeLoop rest ignoreList result)
         | _ \<Rightarrow> mergeLoop rest ignoreList result))"
  by pat_completeness auto
termination
  by (relation "measure (\<lambda>x. case x of
        Inl (d, a, l) \<Rightarrow> 2 * size (JObj a) + 1
      | Inr (a, l, r) \<Rightarrow> 2 * size (JObj a))") auto

section \<open>The patch synthesizer\<close>

text \<open>
  The fields of \<^verbatim>\<open>APIObject\<close> that \<^verbatim>\<open>patchMidpointObject\<close> reads. The requests
  are modelled for a client whose \<^verbatim>\<open>writeReturnsObject\<close> is false, so that no
  response is parsed back into the object while the patches are sent.
\<close>

record APIObject =
  data :: obj
  apiData :: obj
  ignoreChangesTo :: "string list"
  idAttribute :: string

text \<open>
  The \<^verbatim>\<open>itemDelta\<close> that \<^verbatim>\<open>sendMidpointPatch\<close> puts on the wire: the value is
  present for \<^verbatim>\<open>add\<close> and \<^verbatim>\<open>replace\<close> of a value that is not \<^verbatim>\<open>nil\<close>, and is
  filtered with the object's ignore list first.
\<close>

record itemDelta =
  modificationType :: string
  path :: string
  itemValue :: "json option"

datatype patchError =
    AddFailed string
  | ReplaceFailed string
  | DeleteFailed string

definition buildItemDelta :: "APIObject \<Rightarrow> string \<Rightarrow> string \<Rightarrow> json \<Rightarrow> itemDelta" where
  "buildItemDelta obj modType pth val =
     \<lparr>modificationType = modType,
      path = pth,
      itemValue =
        (if modType \<noteq> ''delete'' \<and> val \<noteq> JNull then
           Some (case val of
                   JObj mapValue \<Rightarrow> JObj (filterIgnoredFields mapValue (ignoreChangesTo obj))
                 | JArr sliceValue \<Rightarrow>
                     JArr (map (\<lambda>elem. case elem of
                                   JObj mapElem \<Rightarrow>
                                     JObj (filterIgnoredFields mapElem (ignoreChangesTo obj))
                                 | _ \<Rightarrow> elem) sliceValue)
                 | _ \<Rightarrow> val)
         else None)\<rparr>"

text \<open>
  \<^verbatim>\<open>sendMidpointPatch\<close> with the transport as a parameter: \<open>transportOk\<close> tells
  whether the PATCH request with the given \<^verbatim>\<open>itemDelta\<close> succeeds. The result is
  the request sent and whether an error is returned. \<^verbatim>\<open>json.Marshal\<close> does not fail
  on a JSON tree, so its error branch is not reachable.
\<close>

definition sendMidpointPatch ::
  "(itemDelta \<Rightarrow> bool) \<Rightarrow> APIObject \<Rightarrow> string \<Rightarrow> string \<Rightarrow> json \<Rightarrow> itemDelta \<times> bool" where
  "sendMidpointPatch transportOk obj modType pth val =
     (let req = buildItemDelta obj modType pth val in (req, \<not> transportOk req))"

text \<open>The loop over the desired data: additions and replacements.\<close>

fun desiredLoop ::
  "(itemDelta \<Rightarrow> bool) \<Rightarrow> APIObject \<Rightarrow> obj \<Rightarrow> obj \<Rightarrow> itemDelta list
     \<Rightarrow> itemDelta list \<times> patchError option" where
  "desiredLoop transportOk obj workingApiData [] sent = (sent, None)"
| "desiredLoop transportOk obj workingApiData ((key, desiredValue) # rest) sent =
     (case map_of workingApiData key of
        None \<Rightarrow>
          (case sendMidpointPatch transportOk obj ''add'' key desiredValue of
             (req, failed) \<Rightarrow>
               if failed then (sent @ [req], Some (AddFailed key))
               else desiredLoop transportOk obj workingApiData rest (sent @ [req]))
      | Some currentValue \<Rightarrow>
          if \<not> deepEqual currentValue desiredValue then
            (case sendMidpointPatch transportOk obj ''replace'' key desiredValue of
               (req, failed) \<Rightarrow>
                 if failed then (sent @ [req], Some (ReplaceFailed key))
                 else desiredLoop transportOk obj workingApiData rest (sent @ [req]))
          else desiredLoop transportOk obj workingApiData rest sent)"

text \<open>The loop over the API data: deletions.\<close>

fun deleteLoop ::
  "(itemDelta \<Rightarrow> bool) \<Rightarrow> APIObject \<Rightarrow> obj \<Rightarrow> obj \<Rightarrow> itemDelta list
     \<Rightarrow> itemDelta list \<times> patchError option" where
  "deleteLoop transportOk obj desiredData [] sent = (sent, None)"
| "deleteLoop transportOk obj desiredData ((key, currentValue) # rest) sent =
     (if map_of desiredData key = None then
        if key = idAttribute obj then deleteLoop transportOk obj desiredData rest sent
        else if matchesIgnorePattern key (ignoreChangesTo obj) then
          deleteLoop transportOk obj desiredData rest sent
        else
          (case sendMidpointPatch transportOk obj ''delete'' key JNull of
             (req, failed) \<Rightarrow>
               if failed then (sent @ [req], Some (DeleteFailed key))
               else deleteLoop transportOk obj desiredData rest (sent @ [req]))
      else deleteLoop transportOk obj desiredData rest sent)"

text \<open>
  The part of \<^verbatim>\<open>patchMidpointObject\<close> after the unwrapping: merge the ignored
  fields, then run the two loops on \<^verbatim>\<open>workingData\<close> and \<^verbatim>\<open>workingApiData\<close>.
\<close>

definition synthesize ::
  "(itemDelta \<Rightarrow> bool) \<Rightarrow> APIObject \<Rightarrow> obj \<Rightarrow> obj \<Rightarrow> itemDelta list \<times> patchError option" where
  "synthesize transportOk obj workingData workingApiData =
     (let desiredData =
            (if length (ignoreChangesTo obj) > 0
             then mergeIgnoredFields workingData workingApiData (ignoreChangesTo obj)
             else workingData)
      in case desiredLoop transportOk obj workingApiData desiredData [] of
           (sent, Some e) \<Rightarrow> (sent, Some e)
         | (sent, None) \<Rightarrow> deleteLoop transportOk obj desiredData workingApiData sent)"

text \<open>
  The unwrapping at the head of \<^verbatim>\<open>patchMidpointObject\<close>: both maps have one key,
  the two keys are the same string, and both values are maps.
\<close>

definition unwrap :: "APIObject \<Rightarrow> obj \<times> obj" where
  "unwrap obj =
     (if length (data obj) = 1 \<and> length (apiData obj) = 1 then
        (let dataKey = fst (hd (data obj)); apiKey = fst (hd (apiData obj)) in
         if dataKey = apiKey then
           (case snd (hd (data obj)) of
              JObj dataMap \<Rightarrow>
                (case snd (hd (apiData obj)) of
                   JObj apiMap \<Rightarrow> (dataMap, apiMap)
                 | _ \<Rightarrow> (data obj, apiData obj))
            | _ \<Rightarrow> (data obj, apiData obj))
         else (data obj, apiData obj))
      else (data obj, apiData obj))"

definition patchMidpointObject ::
  "(itemDelta \<Rightarrow> bool) \<Rightarrow> APIObject \<Rightarrow> itemDelta list \<times> patchError option" where
  "patchMidpointObject transportOk obj =
     (case unwrap obj of
        (workingData, workingApiData) \<Rightarrow> synthesize transportOk obj workingData workingApiData)"

text \<open>A transport on which every request succeeds.\<close>

definition alwaysOk :: "itemDelta \<Rightarrow> bool" where
  "alwaysOk req = True"

text \<open>
  The path descender as the specification words it, pattern by pattern: a wildcard
  pattern (one beginning with \<^verbatim>\<open>*.\<close>) is kept; a key without a dot is dropped; a
  dotted path whose first component is the key is replaced by what follows its first
  dot, that is, by its remaining components rejoined with dots; any other dotted path
  is dropped.
\<close>

definition descendSpec :: "string \<Rightarrow> string list \<Rightarrow> string list" where
  "descendSpec k L =
     concat (map (\<lambda>p.
       if take 2 p = ''*.'' then [p]
       else if CHR ''.'' \<notin> set p then []
       else if takeWhile (\<lambda>c. c \<noteq> CHR ''.'') p = k
         then [tl (dropWhile (\<lambda>c. c \<noteq> CHR ''.'') p)]
       else []) L)"

text \<open>
  The comparison of two array elements at the same index, as the specification words
  it. Two objects are compared by the recursive \<^verbatim>\<open>getDelta\<close> under the descended
  ignore list: they differ when it reports a change, and the merged element is then
  the recursive merge, otherwise the recorded element. Any other pair differs when it
  is not deeply equal, and the merged element is then the actual element, otherwise
  the recorded one.
\<close>

definition specElemChanged :: "string list \<Rightarrow> json \<Rightarrow> json \<Rightarrow> bool" where
  "specElemChanged L x y =
     (case x of
        JObj mx \<Rightarrow>
          (case y of
             JObj my \<Rightarrow> (case getDelta mx my L of Inl e \<Rightarrow> False | Inr (m, c) \<Rightarrow> c)
           | _ \<Rightarrow> \<not> deepEqual x y)
      | _ \<Rightarrow> \<not> deepEqual x y)"

definition specMergedElem :: "string list \<Rightarrow> json \<Rightarrow> json \<Rightarrow> json" where
  "specMergedElem L x y =
     (case x of
        JObj mx \<Rightarrow>
          (case y of
             JObj my \<Rightarrow>
               (case getDelta mx my L of
                  Inl e \<Rightarrow> x
                | Inr (m, c) \<Rightarrow> if c then JObj m else x)
           | _ \<Rightarrow> if deepEqual x y then x else y)
      | _ \<Rightarrow> if deepEqual x y then x else y)"

text \<open>
  Trees in which no array has a \<^verbatim>\<open>null\<close> element, at any depth.
\<close>

fun nullFreeArrays :: "json \<Rightarrow> bool" where
  "nullFreeArrays (JArr xs) = list_all (\<lambda>x. x \<noteq> JNull \<and> nullFreeArrays x) xs"
| "nullFreeArrays (JObj kvs) = list_all (\<lambda>kv. nullFreeArrays (snd kv)) kvs"
| "nullFreeArrays _ = True"

declare getDelta.simps [simp del]
declare keyDelta.simps [simp del]
declare elemDelta.simps [simp del]

section \<open>The pattern matcher\<close>

lemma hasPrefix_wildcard: "hasPrefix p ''*.'' = (take 2 p = ''*.'')"
  by (simp add: hasPrefix_def numeral_2_eq_2)

lemma wildcard_shape:
  "(hasPrefix p ''*.'' \<and> drop 2 p = f) = (p = ''*.'' @ f)"
proof
  assume h: "hasPrefix p ''*.'' \<and> drop 2 p = f"
  then have "take 2 p = ''*.''" by (simp only: hasPrefix_wildcard)
  moreover have "take 2 p @ drop 2 p = p" by (rule append_take_drop_id)
  ultimately show "p = ''*.'' @ f" using h by metis
next
  assume "p = ''*.'' @ f"
  then show "hasPrefix p ''*.'' \<and> drop 2 p = f" by (simp add: hasPrefix_wildcard)
qed

lemma matches_set:
  "matchesIgnorePattern f L = (f \<in> set L \<or> (''*.'' @ f) \<in> set L)"
proof (induction L)
  case Nil
  show ?case by simp
next
  case (Cons p L)
  have "matchesIgnorePattern f (p # L) =
          (p = f \<or> (hasPrefix p ''*.'' \<and> drop 2 p = f) \<or> matchesIgnorePattern f L)"
    by auto
  also have "\<dots> = (p = f \<or> p = ''*.'' @ f \<or> f \<in> set L \<or> (''*.'' @ f) \<in> set L)"
    by (simp only: wildcard_shape Cons.IH)
  finally show ?case by auto
qed

text \<open>
  C7. A field name matches a pattern list exactly when the list holds the field name
  itself or the wildcard pattern made of \<^verbatim>\<open>*.\<close> followed by the field name. The
  matcher is a total function without any error result.
\<close>

theorem matchesIgnorePattern_iff:
  "matchesIgnorePattern f L = (f \<in> set L \<or> (''*.'' @ f) \<in> set L)"
  by (rule matches_set)

section \<open>The path descender\<close>

lemma splitDot_nonempty: "splitDot p \<noteq> []"
  by (induction p) (auto split: list.splits)

lemma splitDot_single: "(length (splitDot p) = Suc 0) = (CHR ''.'' \<notin> set p)"
proof (induction p)
  case Nil
  show ?case by simp
next
  case (Cons c cs)
  show ?case
  proof (cases "c = CHR ''.''")
    case True
    then show ?thesis using splitDot_nonempty [of cs] by simp
  next
    case False
    obtain w ws where e: "splitDot cs = w # ws"
      using splitDot_nonempty [of cs] by (cases "splitDot cs") auto
    with False Cons show ?thesis by auto
  qed
qed

lemma joinDot_Cons: "ws \<noteq> [] \<Longrightarrow> joinDot (w # ws) = w @ ''.'' @ joinDot ws"
  by (cases ws) simp_all

text \<open>Joining the components of a string with dots gives the string back.\<close>

lemma joinDot_splitDot: "joinDot (splitDot p) = p"
proof (induction p)
  case Nil
  show ?case by simp
next
  case (Cons c cs)
  obtain w ws where e: "splitDot cs = w # ws"
    using splitDot_nonempty [of cs] by (cases "splitDot cs") auto
  show ?case
  proof (cases "c = CHR ''.''")
    case True
    then show ?thesis using Cons splitDot_nonempty [of cs] by (simp add: joinDot_Cons)
  next
    case False
    show ?thesis
    proof (cases ws)
      case Nil
      with False e Cons show ?thesis by simp
    next
      case (Cons a list)
      with False e Cons.IH show ?thesis by simp
    qed
  qed
qed

lemma hd_splitDot: "hd (splitDot p) = takeWhile (\<lambda>c. c \<noteq> CHR ''.'') p"
proof (induction p)
  case Nil
  show ?case by simp
next
  case (Cons c cs)
  then show ?case using splitDot_nonempty [of cs] by (auto split: list.splits)
qed

lemma dotted_split:
  assumes "CHR ''.'' \<in> set p"
  shows "p = hd (splitDot p) @ ''.'' @ joinDot (tl (splitDot p))"
proof -
  obtain w ws where e: "splitDot p = w # ws"
    using splitDot_nonempty [of p] by (cases "splitDot p") auto
  have "length (splitDot p) \<noteq> Suc 0" using assms by (simp add: splitDot_single)
  with e have "ws \<noteq> []" by auto
  then have "joinDot (w # ws) = w @ ''.'' @ joinDot ws" by (rule joinDot_Cons)
  with e joinDot_splitDot [of p] show ?thesis by simp
qed

lemma rest_after_first_dot:
  assumes "CHR ''.'' \<in> set p"
  shows "joinDot (tl (splitDot p)) = tl (dropWhile (\<lambda>c. c \<noteq> CHR ''.'') p)"
proof -
  let ?t = "takeWhile (\<lambda>c. c \<noteq> CHR ''.'') p"
  let ?d = "dropWhile (\<lambda>c. c \<noteq> CHR ''.'') p"
  have "?t @ ?d = p" by (rule takeWhile_dropWhile_id)
  moreover have "p = ?t @ ''.'' @ joinDot (tl (splitDot p))"
    using dotted_split [OF assms] by (simp only: hd_splitDot)
  ultimately have "?t @ ?d = ?t @ ''.'' @ joinDot (tl (splitDot p))" by simp
  then have "?d = ''.'' @ joinDot (tl (splitDot p))" by (simp only: same_append_eq)
  then show ?thesis by simp
qed

lemma descendLoop_eq:
  "descendLoop k L acc =
     acc @ concat (map (\<lambda>p.
       if take 2 p = ''*.'' then [p]
       else if CHR ''.'' \<notin> set p then []
       else if takeWhile (\<lambda>c. c \<noteq> CHR ''.'') p = k
         then [tl (dropWhile (\<lambda>c. c \<noteq> CHR ''.'') p)]
       else []) L)"
proof (induction L arbitrary: acc)
  case Nil
  show ?case by simp
next
  case (Cons p L)
  show ?case
  proof (cases "CHR ''.'' \<in> set p")
    case True
    then show ?thesis
      using Cons [of "acc @ [p]"] Cons [of acc]
        Cons [of "acc @ [joinDot (tl (splitDot p))]"]
      by (simp add: Let_def splitDot_single hasPrefix_wildcard hd_splitDot
            rest_after_first_dot)
  next
    case False
    then show ?thesis
      using Cons [of "acc @ [p]"] Cons [of acc]
      by (simp add: Let_def splitDot_single hasPrefix_wildcard)
  qed
qed

lemma length_concat_le:
  "(\<And>x. length (f x) \<le> Suc 0) \<Longrightarrow> length (concat (map f L)) \<le> length L"
proof (induction L)
  case Nil
  show ?case by simp
next
  case (Cons a L)
  have "length (f a) \<le> Suc 0" by (rule Cons.prems)
  moreover have "length (concat (map f L)) \<le> length L" using Cons by blast
  ultimately show ?case by simp
qed

text \<open>
  C8. The list computed by \<^verbatim>\<open>_descendIgnoreList\<close> is the list that the four rules
  of the specification give, pattern by pattern and in the order of the input, and it
  is never longer than the input list.
\<close>

theorem descendIgnoreList_spec:
  "descendIgnoreList k L = descendSpec k L
   \<and> length (descendIgnoreList k L) \<le> length L"
proof -
  have e: "descendIgnoreList k L = descendSpec k L"
    by (simp add: descendIgnoreList_def descendSpec_def descendLoop_eq)
  have "length (descendSpec k L) \<le> length L"
    unfolding descendSpec_def by (rule length_concat_le) simp
  with e show ?thesis by simp
qed

section \<open>The loops of the delta engine\<close>

text \<open>
  What the two loops of \<^verbatim>\<open>getDelta\<close> compute, in terms of the loop body
  \<open>keyDelta\<close>: the keys visited, the keys of the merged map, the flag, and the value
  stored under each key.
\<close>

lemma keys_update: "fst ` set (AList.update k v al) = insert k (fst ` set al)"
proof -
  have "set (map fst (AList.update k v al)) = insert k (set (map fst al))"
    by (auto simp: update_keys)
  then show ?thesis by simp
qed

lemma actualLoop_Cons:
  "actualLoop ((k, v) # A) ck L (m, ch) =
     actualLoop A ck L
       (if k \<in> set ck \<or> matchesIgnorePattern k L then (m, ch)
        else (AList.update k v m, True))"
  by simp

lemma actualLoop_changed:
  "snd (actualLoop A ck L (m, ch)) =
     (ch \<or> (\<exists>k \<in> fst ` set A. k \<notin> set ck \<and> \<not> matchesIgnorePattern k L))"
proof (induction A arbitrary: m ch)
  case Nil
  show ?case by simp
next
  case (Cons kv A)
  obtain k v where kv: "kv = (k, v)" by (cases kv)
  show ?case
  proof (cases "k \<in> set ck \<or> matchesIgnorePattern k L")
    case True
    then show ?thesis unfolding kv actualLoop_Cons using Cons.IH [of m ch] by auto
  next
    case False
    then show ?thesis unfolding kv actualLoop_Cons
      using Cons.IH [of "AList.update k v m" True] by auto
  qed
qed

lemma actualLoop_keys:
  "fst ` set (fst (actualLoop A ck L (m, ch))) =
     fst ` set m \<union> {k \<in> fst ` set A. k \<notin> set ck \<and> \<not> matchesIgnorePattern k L}"
proof (induction A arbitrary: m ch)
  case Nil
  show ?case by simp
next
  case (Cons kv A)
  obtain k v where kv: "kv = (k, v)" by (cases kv)
  show ?case
  proof (cases "k \<in> set ck \<or> matchesIgnorePattern k L")
    case True
    then show ?thesis unfolding kv actualLoop_Cons using Cons.IH [of m ch] by auto
  next
    case False
    then show ?thesis unfolding kv actualLoop_Cons
      using Cons.IH [of "AList.update k v m" True] by (auto simp: keys_update)
  qed
qed

lemma actualLoop_map_of_checked:
  "k \<in> set ck \<Longrightarrow> map_of (fst (actualLoop A ck L (m, ch))) k = map_of m k"
proof (induction A arbitrary: m ch)
  case Nil
  show ?case by simp
next
  case (Cons kv A)
  obtain k0 v0 where kv: "kv = (k0, v0)" by (cases kv)
  show ?case
  proof (cases "k0 \<in> set ck \<or> matchesIgnorePattern k0 L")
    case True
    then show ?thesis unfolding kv actualLoop_Cons using Cons.IH [of m ch] Cons.prems by simp
  next
    case False
    with Cons.prems have "k \<noteq> k0" by auto
    with False show ?thesis unfolding kv actualLoop_Cons
      using Cons.IH [of "AList.update k0 v0 m" True] Cons.prems by (simp add: update_conv')
  qed
qed

lemma recordedLoop_checked:
  "recordedLoop R A L (m, ch, ck) = Inr (m', ch', ck') \<Longrightarrow> set ck' = set ck \<union> fst ` set R"
proof (induction R arbitrary: m ch ck)
  case Nil
  then show ?case by simp
next
  case (Cons kv R)
  obtain k v where kv: "kv = (k, v)" by (cases kv)
  from Cons.prems kv obtain w c where
    "recordedLoop R A L (AList.update k w m, ch \<or> c, k # ck) = Inr (m', ch', ck')"
    by (auto split: sum.splits)
  from Cons.IH [OF this] kv show ?case by auto
qed

lemma recordedLoop_keys:
  "recordedLoop R A L (m, ch, ck) = Inr (m', ch', ck') \<Longrightarrow>
     fst ` set m' = fst ` set m \<union> fst ` set R"
proof (induction R arbitrary: m ch ck)
  case Nil
  then show ?case by simp
next
  case (Cons kv R)
  obtain k v where kv: "kv = (k, v)" by (cases kv)
  from Cons.prems kv obtain w c where
    "recordedLoop R A L (AList.update k w m, ch \<or> c, k # ck) = Inr (m', ch', ck')"
    by (auto split: sum.splits)
  from Cons.IH [OF this] kv show ?case by (auto simp: keys_update)
qed

lemma recordedLoop_changed:
  "recordedLoop R A L (m, ch, ck) = Inr (m', ch', ck') \<Longrightarrow>
     ch' = (ch \<or> (\<exists>(k, v) \<in> set R. \<exists>w. keyDelta k v A L = Inr (w, True)))"
proof (induction R arbitrary: m ch ck)
  case Nil
  then show ?case by simp
next
  case (Cons kv R)
  obtain k v where kv: "kv = (k, v)" by (cases kv)
  from Cons.prems kv obtain w c where
    kd: "keyDelta k v A L = Inr (w, c)" and
    "recordedLoop R A L (AList.update k w m, ch \<or> c, k # ck) = Inr (m', ch', ck')"
    by (auto split: sum.splits)
  from Cons.IH [OF this(2)] kv kd show ?case by auto
qed

lemma recordedLoop_ok:
  "recordedLoop R A L (m, ch, ck) = Inr (m', ch', ck') \<Longrightarrow> (k, v) \<in> set R \<Longrightarrow>
     \<exists>w c. keyDelta k v A L = Inr (w, c)"
proof (induction R arbitrary: m ch ck)
  case Nil
  then show ?case by simp
next
  case (Cons kv R)
  obtain k0 v0 where kv: "kv = (k0, v0)" by (cases kv)
  from Cons.prems(1) kv obtain w c where
    kd: "keyDelta k0 v0 A L = Inr (w, c)" and
    "recordedLoop R A L (AList.update k0 w m, ch \<or> c, k0 # ck) = Inr (m', ch', ck')"
    by (auto split: sum.splits)
  from Cons.IH [OF this(2)] Cons.prems(2) kv kd show ?case by auto
qed

lemma recordedLoop_map_of_other:
  "recordedLoop R A L (m, ch, ck) = Inr (m', ch', ck') \<Longrightarrow> k \<notin> fst ` set R \<Longrightarrow>
     map_of m' k = map_of m k"
proof (induction R arbitrary: m ch ck)
  case Nil
  then show ?case by simp
next
  case (Cons kv R)
  obtain k0 v0 where kv: "kv = (k0, v0)" by (cases kv)
  from Cons.prems(1) kv obtain w c where
    "recordedLoop R A L (AList.update k0 w m, ch \<or> c, k0 # ck) = Inr (m', ch', ck')"
    by (auto split: sum.splits)
  from Cons.IH [OF this] Cons.prems(2) kv show ?case by (auto simp: update_conv')
qed

lemma recordedLoop_map_of:
  "recordedLoop R A L (m, ch, ck) = Inr (m', ch', ck') \<Longrightarrow> distinct (map fst R) \<Longrightarrow>
   (k, v) \<in> set R \<Longrightarrow> \<exists>w c. keyDelta k v A L = Inr (w, c) \<and> map_of m' k = Some w"
proof (induction R arbitrary: m ch ck)
  case Nil
  then show ?case by simp
next
  case (Cons kv R)
  obtain k0 v0 where kv: "kv = (k0, v0)" by (cases kv)
  from Cons.prems(1) kv obtain w c where
    kd: "keyDelta k0 v0 A L = Inr (w, c)" and
    rl: "recordedLoop R A L (AList.update k0 w m, ch \<or> c, k0 # ck) = Inr (m', ch', ck')"
    by (auto split: sum.splits)
  show ?case
  proof (cases "(k, v) \<in> set R")
    case True
    with Cons.IH [OF rl] Cons.prems(2) show ?thesis by simp
  next
    case False
    with Cons.prems(3) kv have e: "k = k0" "v = v0" by auto
    with Cons.prems(2) kv have "k0 \<notin> fst ` set R" by simp
    from recordedLoop_map_of_other [OF rl this] have "map_of m' k0 = Some w"
      by (simp add: update_conv')
    with kd e show ?thesis by simp
  qed
qed

lemma recordedLoop_total:
  "(\<And>k v. (k, v) \<in> set R \<Longrightarrow> \<exists>r. keyDelta k v A L = Inr r) \<Longrightarrow>
     \<exists>st'. recordedLoop R A L st = Inr st'"
proof (induction R arbitrary: st)
  case Nil
  show ?case by (rule exI [of _ st]) simp
next
  case (Cons kv R)
  obtain k0 v0 where kv: "kv = (k0, v0)" by (cases kv)
  obtain m ch ck where st: "st = (m, ch, ck)" by (cases st) auto
  from Cons.prems [of k0 v0] kv obtain w c where kd: "keyDelta k0 v0 A L = Inr (w, c)" by auto
  have "\<exists>st'. recordedLoop R A L (AList.update k0 w m, ch \<or> c, k0 # ck) = Inr st'"
    by (rule Cons.IH) (rule Cons.prems, simp)
  with kv st kd show ?case by simp
qed

lemma recordedLoop_cong:
  "(\<And>k v. (k, v) \<in> set R \<Longrightarrow> keyDelta k v A L = keyDelta k v A' L') \<Longrightarrow>
     recordedLoop R A L st = recordedLoop R A' L' st"
proof (induction R arbitrary: st)
  case Nil
  show ?case by simp
next
  case (Cons kv R)
  obtain k0 v0 where kv: "kv = (k0, v0)" by (cases kv)
  obtain m ch ck where st: "st = (m, ch, ck)" by (cases st) auto
  have e: "keyDelta k0 v0 A L = keyDelta k0 v0 A' L'" using Cons.prems [of k0 v0] kv by simp
  have "\<And>st. recordedLoop R A L st = recordedLoop R A' L' st"
    by (rule Cons.IH) (rule Cons.prems, simp)
  with kv st e show ?case by (auto split: sum.splits)
qed

lemma getDelta_Inr:
  assumes "getDelta R A L = Inr (M, ch)"
  obtains m c ck where "recordedLoop R A L ([], False, []) = Inr (m, c, ck)"
    and "actualLoop A ck L (m, c) = (M, ch)"
  using assms by (auto simp: getDelta.simps split: sum.splits)

lemma getDelta_keys:
  assumes "getDelta R A L = Inr (M, ch)"
  shows "fst ` set M =
           fst ` set R \<union> {k \<in> fst ` set A. k \<notin> fst ` set R \<and> \<not> matchesIgnorePattern k L}"
proof -
  from assms obtain m c ck where
    rl: "recordedLoop R A L ([], False, []) = Inr (m, c, ck)" and
    al: "actualLoop A ck L (m, c) = (M, ch)"
    by (rule getDelta_Inr)
  have ck: "set ck = fst ` set R" using recordedLoop_checked [OF rl] by simp
  have m: "fst ` set m = fst ` set R" using recordedLoop_keys [OF rl] by simp
  have "fst ` set (fst (actualLoop A ck L (m, c))) =
          fst ` set m \<union> {k \<in> fst ` set A. k \<notin> set ck \<and> \<not> matchesIgnorePattern k L}"
    by (rule actualLoop_keys)
  with al ck m show ?thesis by simp
qed

lemma getDelta_changed:
  assumes "getDelta R A L = Inr (M, ch)"
  shows "ch = ((\<exists>(k, v) \<in> set R. \<exists>w. keyDelta k v A L = Inr (w, True)) \<or>
               (\<exists>k \<in> fst ` set A. k \<notin> fst ` set R \<and> \<not> matchesIgnorePattern k L))"
proof -
  from assms obtain m c ck where
    rl: "recordedLoop R A L ([], False, []) = Inr (m, c, ck)" and
    al: "actualLoop A ck L (m, c) = (M, ch)"
    by (rule getDelta_Inr)
  have ck: "set ck = fst ` set R" using recordedLoop_checked [OF rl] by simp
  have c: "c = (\<exists>(k, v) \<in> set R. \<exists>w. keyDelta k v A L = Inr (w, True))"
    using recordedLoop_changed [OF rl] by simp
  have "snd (actualLoop A ck L (m, c)) =
          (c \<or> (\<exists>k \<in> fst ` set A. k \<notin> set ck \<and> \<not> matchesIgnorePattern k L))"
    by (rule actualLoop_changed)
  with al ck c show ?thesis by simp
qed

lemma getDelta_map_of:
  assumes "getDelta R A L = Inr (M, ch)" and "distinct (map fst R)" and "(k, v) \<in> set R"
  shows "\<exists>w c. keyDelta k v A L = Inr (w, c) \<and> map_of M k = Some w"
proof -
  from assms(1) obtain m c ck where
    rl: "recordedLoop R A L ([], False, []) = Inr (m, c, ck)" and
    al: "actualLoop A ck L (m, c) = (M, ch)"
    by (rule getDelta_Inr)
  have "k \<in> set ck" using recordedLoop_checked [OF rl] assms(3) by force
  then have "map_of (fst (actualLoop A ck L (m, c))) k = map_of m k"
    by (rule actualLoop_map_of_checked)
  with al have "map_of M k = map_of m k" by simp
  with recordedLoop_map_of [OF rl assms(2) assms(3)] show ?thesis by simp
qed

lemma getDelta_ok:
  assumes "getDelta R A L = Inr (M, ch)" and "(k, v) \<in> set R"
  shows "\<exists>w c. keyDelta k v A L = Inr (w, c)"
proof -
  from assms(1) obtain m c ck where
    rl: "recordedLoop R A L ([], False, []) = Inr (m, c, ck)"
    by (rule getDelta_Inr)
  from recordedLoop_ok [OF rl assms(2)] show ?thesis .
qed

lemma getDelta_total:
  assumes "\<And>k v. (k, v) \<in> set R \<Longrightarrow> \<exists>r. keyDelta k v A L = Inr r"
  shows "\<exists>M ch. getDelta R A L = Inr (M, ch)"
proof -
  from recordedLoop_total [of R A L "([], False, [])"] assms
  obtain st' where "recordedLoop R A L ([], False, []) = Inr st'" by blast
  then show ?thesis by (cases st') (auto simp: getDelta.simps intro: prod.exhaust)
qed

lemma keyDelta_null:
  "\<not> matchesIgnorePattern k L \<Longrightarrow>
     keyDelta k JNull A L =
       Inr (lookupOrNil A k, map_of A k \<noteq> None \<and> lookupOrNil A k \<noteq> JNull)"
  by (simp add: keyDelta.simps Let_def)

lemma keyDelta_actual_cong:
  "map_of A k = map_of A' k \<Longrightarrow> keyDelta k v A L = keyDelta k v A' L"
  by (simp add: keyDelta.simps lookupOrNil_def)

lemma set_delete: "set (AList.delete k al) = {kv \<in> set al. fst kv \<noteq> k}"
  by (induction al) auto

lemma keys_delete: "fst ` set (AList.delete k al) = fst ` set al - {k}"
proof -
  have "set (map fst (AList.delete k al)) = set (map fst al) - {k}"
    by (simp only: delete_keys set_removeAll)
  then show ?thesis by simp
qed

lemma getDelta_delete_key:
  assumes run: "getDelta R A L = Inr (M, ch)"
    and unchanged: "\<And>v w. (k, v) \<in> set R \<Longrightarrow> keyDelta k v A L \<noteq> Inr (w, True)"
    and inR: "k \<in> fst ` set R"
  shows "\<exists>M'. getDelta (AList.delete k R) (AList.delete k A) L = Inr (M', ch)"
proof -
  let ?R = "AList.delete k R" and ?A = "AList.delete k A"
  have same: "keyDelta k' v A L = keyDelta k' v ?A L" if "(k', v) \<in> set ?R" for k' v
  proof -
    from that have "k' \<noteq> k" by (simp add: set_delete)
    then have "map_of A k' = map_of ?A k'" by simp
    then show ?thesis by (rule keyDelta_actual_cong)
  qed
  have "\<exists>r. keyDelta k' v ?A L = Inr r" if "(k', v) \<in> set ?R" for k' v
  proof -
    from that have "(k', v) \<in> set R" by (simp add: set_delete)
    from getDelta_ok [OF run this] same [OF that] show ?thesis by auto
  qed
  then obtain M' ch' where run': "getDelta ?R ?A L = Inr (M', ch')"
    using getDelta_total [of ?R ?A L] by blast
  have "ch' = ch"
  proof -
    have a: "(\<exists>(k', v) \<in> set ?R. \<exists>w. keyDelta k' v ?A L = Inr (w, True)) =
             (\<exists>(k', v) \<in> set R. \<exists>w. keyDelta k' v A L = Inr (w, True))"
    proof
      assume "\<exists>(k', v) \<in> set ?R. \<exists>w. keyDelta k' v ?A L = Inr (w, True)"
      then obtain k' v w where m: "(k', v) \<in> set ?R" and "keyDelta k' v ?A L = Inr (w, True)"
        by auto
      with same [OF m] have "keyDelta k' v A L = Inr (w, True)" by simp
      moreover from m have "(k', v) \<in> set R" by (simp add: set_delete)
      ultimately show "\<exists>(k', v) \<in> set R. \<exists>w. keyDelta k' v A L = Inr (w, True)" by blast
    next
      assume "\<exists>(k', v) \<in> set R. \<exists>w. keyDelta k' v A L = Inr (w, True)"
      then obtain k' v w where m: "(k', v) \<in> set R" and kd: "keyDelta k' v A L = Inr (w, True)"
        by auto
      with unchanged have "k' \<noteq> k" by blast
      with m have m': "(k', v) \<in> set ?R" by (simp add: set_delete)
      with same [OF m'] kd have "keyDelta k' v ?A L = Inr (w, True)" by simp
      with m' show "\<exists>(k', v) \<in> set ?R. \<exists>w. keyDelta k' v ?A L = Inr (w, True)" by blast
    qed
    have b: "(\<exists>k' \<in> fst ` set ?A. k' \<notin> fst ` set ?R \<and> \<not> matchesIgnorePattern k' L) =
             (\<exists>k' \<in> fst ` set A. k' \<notin> fst ` set R \<and> \<not> matchesIgnorePattern k' L)"
    proof -
      define KA where "KA = fst ` set A"
      define KR where "KR = fst ` set R"
      have ka: "fst ` set ?A = KA - {k}" unfolding KA_def by (rule keys_delete)
      have kr: "fst ` set ?R = KR - {k}" unfolding KR_def by (rule keys_delete)
      have "k \<in> KR" using inR by (simp only: KR_def)
      then have "(\<exists>k' \<in> KA - {k}. k' \<notin> KR - {k} \<and> \<not> matchesIgnorePattern k' L) =
                 (\<exists>k' \<in> KA. k' \<notin> KR \<and> \<not> matchesIgnorePattern k' L)"
        by blast
      then show ?thesis by (simp only: ka kr KA_def [symmetric] KR_def [symmetric])
    qed
    show ?thesis
      using getDelta_changed [OF run'] getDelta_changed [OF run] by (simp only: a b)
  qed
  with run' show ?thesis by blast
qed

section \<open>Recorded null values\<close>

text \<open>
  Let the recorded object have distinct keys and hold \<^verbatim>\<open>null\<close> under a key
  \<open>k\<close> that is not ignored, and let \<^verbatim>\<open>getDelta\<close> return the merged object
  \<open>M\<close> and the flag \<open>ch\<close>. If the actual object lacks \<open>k\<close> or maps it to
  \<^verbatim>\<open>null\<close>, then \<open>M\<close> maps \<open>k\<close> to \<^verbatim>\<open>null\<close> and \<open>k\<close> contributes no change:
  the run on the two objects without \<open>k\<close> returns the same flag. Otherwise \<open>M\<close>
  maps \<open>k\<close> to the value of the actual object and the flag is set. In particular the
  run on \<^verbatim>\<open>{"foo":"bar","baz":null}\<close> and \<^verbatim>\<open>{"foo":"bar"}\<close> with no ignore
  pattern reports no change.
\<close>

lemma null_recorded_key:
  assumes "distinct (map fst R)" and "(k, JNull) \<in> set R"
    and "\<not> matchesIgnorePattern k L" and "getDelta R A L = Inr (M, ch)"
  shows "(map_of A k = None \<or> map_of A k = Some JNull \<longrightarrow>
            map_of M k = Some JNull \<and>
            (\<exists>M'. getDelta (AList.delete k R) (AList.delete k A) L = Inr (M', ch)))
         \<and> (\<forall>v. map_of A k = Some v \<and> v \<noteq> JNull \<longrightarrow> map_of M k = Some v \<and> ch)
         \<and> getDelta [(''foo'', JStr ''bar''), (''baz'', JNull)] [(''foo'', JStr ''bar'')] []
             = Inr ([(''foo'', JStr ''bar''), (''baz'', JNull)], False)"
proof (intro conjI impI allI)
  have kd: "keyDelta k JNull A L =
              Inr (lookupOrNil A k, map_of A k \<noteq> None \<and> lookupOrNil A k \<noteq> JNull)"
    using assms(3) by (rule keyDelta_null)
  from getDelta_map_of [OF assms(4) assms(1) assms(2)] kd
  have M: "map_of M k = Some (lookupOrNil A k)" by simp
  have only: "v = JNull" if "(k, v) \<in> set R" for v
  proof -
    from assms(1) that have "map_of R k = Some v" by (rule map_of_is_SomeI)
    moreover from assms(1) assms(2) have "map_of R k = Some JNull" by (rule map_of_is_SomeI)
    ultimately show ?thesis by simp
  qed
  {
    assume a: "map_of A k = None \<or> map_of A k = Some JNull"
    then have n: "lookupOrNil A k = JNull" by (auto simp: lookupOrNil_def)
    with M show "map_of M k = Some JNull" by simp
    have "keyDelta k v A L \<noteq> Inr (w, True)" if "(k, v) \<in> set R" for v w
      using only [OF that] kd n by simp
    moreover have "k \<in> fst ` set R" using assms(2) by force
    ultimately show "\<exists>M'. getDelta (AList.delete k R) (AList.delete k A) L = Inr (M', ch)"
      using getDelta_delete_key [OF assms(4)] by blast
  }
  {
    fix v assume a: "map_of A k = Some v \<and> v \<noteq> JNull"
    then have l: "lookupOrNil A k = v" by (simp add: lookupOrNil_def)
    with M show "map_of M k = Some v" by simp
    from kd a l have "keyDelta k JNull A L = Inr (v, True)" by simp
    with assms(2) have "\<exists>(k, v) \<in> set R. \<exists>w. keyDelta k v A L = Inr (w, True)" by blast
    with getDelta_changed [OF assms(4)] show ch by simp
  }
  show "getDelta [(''foo'', JStr ''bar''), (''baz'', JNull)] [(''foo'', JStr ''bar'')] []
          = Inr ([(''foo'', JStr ''bar''), (''baz'', JNull)], False)"
    by code_simp
qed

lemma null_recorded_key_example:
  "map_of [(''foo'', JStr ''bar''), (''baz'', JNull)] ''baz'' = Some JNull \<and>
   (\<exists>M'. getDelta [(''foo'', JStr ''bar'')] [(''foo'', JStr ''bar'')] [] = Inr (M', False))"
proof -
  have h1: "distinct (map fst [(''foo'', JStr ''bar''), (''baz'', JNull)])" by simp
  have h2: "(''baz'', JNull) \<in> set [(''foo'', JStr ''bar''), (''baz'', JNull)]" by simp
  have h3: "\<not> matchesIgnorePattern ''baz'' []" by simp
  have h4: "getDelta [(''foo'', JStr ''bar''), (''baz'', JNull)] [(''foo'', JStr ''bar'')] []
              = Inr ([(''foo'', JStr ''bar''), (''baz'', JNull)], False)"
    by code_simp
  from null_recorded_key [OF h1 h2 h3 h4] show ?thesis by simp
qed

text \<open>
  C4. The statement above needs the run to return. The recorded object
  \<^verbatim>\<open>{"baz":null,"a":[null]}\<close> holds \<^verbatim>\<open>null\<close> under the key \<^verbatim>\<open>baz\<close>, which is
  not ignored and which the actual object \<^verbatim>\<open>{"a":[null]}\<close> lacks; the run panics
  in the element loop on the key \<^verbatim>\<open>a\<close>, so there is no merged result that maps
  \<^verbatim>\<open>baz\<close> to \<^verbatim>\<open>null\<close> and no flag.
\<close>

theorem null_key_run_panics:
  "map_of [(''baz'', JNull), (''a'', JArr [JNull])] ''baz'' = Some JNull
   \<and> \<not> matchesIgnorePattern ''baz'' []
   \<and> map_of [(''a'', JArr [JNull])] ''baz'' = None
   \<and> getDelta [(''baz'', JNull), (''a'', JArr [JNull])] [(''a'', JArr [JNull])] []
       = Inl NilDereference"
  by code_simp

section \<open>Arrays\<close>

lemma elemDelta_Inr:
  assumes "elemDelta x y L = Inr (w, c)"
  shows "w = specMergedElem L x y \<and> c = specElemChanged L x y"
  using assms
  by (cases x; cases y)
     (auto simp: elemDelta.simps specMergedElem_def specElemChanged_def
           split: sum.splits if_splits)

lemma elemLoop_Inr:
  "elemLoop xs ys L (acc, c0) = Inr (ws, c) \<Longrightarrow> length xs = length ys \<Longrightarrow>
     ws = acc @ map2 (specMergedElem L) xs ys \<and>
     c = (c0 \<or> (\<exists>i < length xs. specElemChanged L (xs ! i) (ys ! i)))"
proof (induction xs arbitrary: ys acc c0)
  case Nil
  then show ?case by simp
next
  case (Cons x xs)
  from Cons.prems(2) obtain y ys' where ys: "ys = y # ys'" and len: "length xs = length ys'"
    by (cases ys) auto
  from Cons.prems(1) ys obtain w d where
    ed: "elemDelta x y L = Inr (w, d)" and
    el: "elemLoop xs ys' L (acc @ [w], c0 \<or> d) = Inr (ws, c)"
    by (auto split: sum.splits)
  from elemDelta_Inr [OF ed] have w: "w = specMergedElem L x y" and d: "d = specElemChanged L x y"
    by simp_all
  from Cons.IH [OF el len] have
    ws: "ws = (acc @ [w]) @ map2 (specMergedElem L) xs ys'" and
    c: "c = ((c0 \<or> d) \<or> (\<exists>i < length xs. specElemChanged L (xs ! i) (ys' ! i)))"
    by simp_all
  have ex: "(\<exists>i < length (x # xs). specElemChanged L ((x # xs) ! i) ((y # ys') ! i)) =
            (specElemChanged L x y \<or> (\<exists>i < length xs. specElemChanged L (xs ! i) (ys' ! i)))"
  proof
    assume "\<exists>i < length (x # xs). specElemChanged L ((x # xs) ! i) ((y # ys') ! i)"
    then obtain i where i: "i < length (x # xs)"
      and h: "specElemChanged L ((x # xs) ! i) ((y # ys') ! i)" by blast
    show "specElemChanged L x y \<or> (\<exists>i < length xs. specElemChanged L (xs ! i) (ys' ! i))"
    proof (cases i)
      case 0
      with h show ?thesis by simp
    next
      case (Suc j)
      with i h have "j < length xs" "specElemChanged L (xs ! j) (ys' ! j)" by simp_all
      then show ?thesis by blast
    qed
  next
    assume "specElemChanged L x y \<or> (\<exists>i < length xs. specElemChanged L (xs ! i) (ys' ! i))"
    then show "\<exists>i < length (x # xs). specElemChanged L ((x # xs) ! i) ((y # ys') ! i)"
    proof
      assume "specElemChanged L x y"
      then have "specElemChanged L ((x # xs) ! 0) ((y # ys') ! 0)" by simp
      then show ?thesis by (intro exI [of _ 0]) simp
    next
      assume "\<exists>i < length xs. specElemChanged L (xs ! i) (ys' ! i)"
      then obtain j where "j < length xs" "specElemChanged L (xs ! j) (ys' ! j)" by blast
      then have "Suc j < length (x # xs) \<and>
                 specElemChanged L ((x # xs) ! Suc j) ((y # ys') ! Suc j)" by simp
      then show ?thesis by (rule exI [of _ "Suc j"])
    qed
  qed
  from ws w have "ws = acc @ map2 (specMergedElem L) (x # xs) (y # ys')" by simp
  moreover from c d ex have
    "c = (c0 \<or> (\<exists>i < length (x # xs). specElemChanged L ((x # xs) ! i) ((y # ys') ! i)))"
    by blast
  ultimately show ?case using ys by simp
qed

lemma keyDelta_arrays:
  assumes "\<not> matchesIgnorePattern k L" and "map_of A k = Some (JArr ys)"
  shows "keyDelta k (JArr xs) A L =
           (if length xs \<noteq> length ys then Inr (JArr ys, True)
            else (case elemLoop xs ys (descendIgnoreList k L) ([], False) of
                    Inl e \<Rightarrow> Inl e
                  | Inr (ws, c) \<Rightarrow> if c then Inr (JArr ws, True) else Inr (JArr xs, False)))"
  using assms by (simp add: keyDelta.simps lookupOrNil_def Let_def)

text \<open>
  C5, as the claim states it, fails: two arrays of the same length whose elements
  differ need not be reported as changed. The key \<^verbatim>\<open>a\<close> is not ignored, the
  arrays \<^verbatim>\<open>[{"m":1}]\<close> and \<^verbatim>\<open>[{"m":2}]\<close> have the same length and their elements
  are not deeply equal, yet under the ignore list \<^verbatim>\<open>["*.m"]\<close> no change is reported
  and the merged object is the recorded one: object elements are compared under the
  descended ignore list.
\<close>

theorem array_elements_differ_unchanged:
  "\<not> matchesIgnorePattern ''a'' [''*.m'']
   \<and> length [JObj [(''m'', JNum 1)]] = length [JObj [(''m'', JNum 2)]]
   \<and> \<not> deepEqual (JObj [(''m'', JNum 1)]) (JObj [(''m'', JNum 2)])
   \<and> getDelta [(''a'', JArr [JObj [(''m'', JNum 1)]])]
               [(''a'', JArr [JObj [(''m'', JNum 2)]])] [''*.m'']
       = Inr ([(''a'', JArr [JObj [(''m'', JNum 1)]])], False)"
  by code_simp

text \<open>
  C5, amended. Let the recorded object have distinct keys and hold an array under a
  key \<open>k\<close> that is not ignored, let the actual object hold an array under \<open>k\<close>, and let
  \<^verbatim>\<open>getDelta\<close> return the merged object \<open>M\<close> and the flag \<open>ch\<close>. If the lengths
  differ, the flag is set and \<open>M\<close> holds the actual array. If the lengths are equal,
  the elements are compared index by index as \<open>specElemChanged\<close> says; if some index
  differs, the flag is set and \<open>M\<close> holds, at each index, the element that
  \<open>specMergedElem\<close> gives; if none differs, \<open>M\<close> holds the recorded array.
\<close>

theorem array_key_delta:
  assumes "distinct (map fst R)" and "(k, JArr xs) \<in> set R"
    and "map_of A k = Some (JArr ys)" and "\<not> matchesIgnorePattern k L"
    and "getDelta R A L = Inr (M, ch)"
  shows "(length xs \<noteq> length ys \<longrightarrow> ch \<and> map_of M k = Some (JArr ys))
       \<and> (length xs = length ys \<longrightarrow>
            (if \<exists>i < length xs. specElemChanged (descendIgnoreList k L) (xs ! i) (ys ! i)
             then ch \<and> map_of M k =
                    Some (JArr (map2 (specMergedElem (descendIgnoreList k L)) xs ys))
             else map_of M k = Some (JArr xs)))"
proof -
  let ?L = "descendIgnoreList k L"
  from getDelta_map_of [OF assms(5) assms(1) assms(2)] obtain w c where
    kd: "keyDelta k (JArr xs) A L = Inr (w, c)" and M: "map_of M k = Some w" by blast
  have flag: "ch" if "c"
  proof -
    from that kd have "keyDelta k (JArr xs) A L = Inr (w, True)" by simp
    with assms(2) have "\<exists>(k, v) \<in> set R. \<exists>w. keyDelta k v A L = Inr (w, True)"
      by blast
    with getDelta_changed [OF assms(5)] show ?thesis by simp
  qed
  note unfold = keyDelta_arrays [OF assms(4) assms(3), of xs]
  show ?thesis
  proof (cases "length xs = length ys")
    case False
    with kd unfold have "w = JArr ys" "c" by simp_all
    with M flag False show ?thesis by simp
  next
    case True
    have "\<exists>ws d. elemLoop xs ys ?L ([], False) = Inr (ws, d)"
    proof (cases "elemLoop xs ys ?L ([], False)")
      case (Inl e)
      with kd unfold True show ?thesis by simp
    next
      case (Inr p)
      then show ?thesis by (cases p) simp
    qed
    then obtain ws d where el: "elemLoop xs ys ?L ([], False) = Inr (ws, d)" by blast
    have e2: "keyDelta k (JArr xs) A L =
            (if d then Inr (JArr ws, True) else Inr (JArr xs, False))"
      by (simp only: unfold True el sum.case prod.case simp_thms if_False)
    have r: "(if d then Inr (JArr ws, True) else Inr (JArr xs, False)) =
               (Inr (w, c) :: error + json \<times> bool)"
      using kd by (simp only: e2)
    from elemLoop_Inr [OF el True] have
      ws: "ws = map2 (specMergedElem ?L) xs ys" and
      d: "d = (\<exists>i < length xs. specElemChanged ?L (xs ! i) (ys ! i))"
      by simp_all
    show ?thesis
    proof (cases d)
      case True
      with r have "w = JArr ws" "c" by simp_all
      with M flag ws d True \<open>length xs = length ys\<close> show ?thesis by auto
    next
      case False
      with r have "w = JArr xs" by simp
      with M d False \<open>length xs = length ys\<close> show ?thesis by auto
    qed
  qed
qed

theorem array_key_delta_witness:
  "True \<and>
   map_of [(''a'', JArr [JNum 1, JObj [(''p'', JNum 2)], JNum 4])] ''a'' =
     Some (JArr (map2 (specMergedElem (descendIgnoreList ''a'' []))
                   [JNum 1, JObj [(''p'', JNum 1)], JNum 3]
                   [JNum 1, JObj [(''p'', JNum 2)], JNum 4]))"
proof -
  let ?xs = "[JNum 1, JObj [(''p'', JNum 1)], JNum 3]"
  let ?ys = "[JNum 1, JObj [(''p'', JNum 2)], JNum 4]"
  have h1: "distinct (map fst [(''a'', JArr ?xs)])" by simp
  have h2: "(''a'', JArr ?xs) \<in> set [(''a'', JArr ?xs)]" by simp
  have h3: "map_of [(''a'', JArr ?ys)] ''a'' = Some (JArr ?ys)" by simp
  have h4: "\<not> matchesIgnorePattern ''a'' []" by simp
  have h5: "getDelta [(''a'', JArr ?xs)] [(''a'', JArr ?ys)] []
              = Inr ([(''a'', JArr ?ys)], True)"
    by code_simp
  have len: "length ?xs = length ?ys" by simp
  have "specElemChanged (descendIgnoreList ''a'' []) (?xs ! 2) (?ys ! 2)" by code_simp
  then have ex: "\<exists>i < length ?xs. specElemChanged (descendIgnoreList ''a'' []) (?xs ! i) (?ys ! i)"
    by (intro exI [of _ 2]) simp
  from array_key_delta [OF h1 h2 h3 h4 h5] len ex show ?thesis
    by (simp only: if_True simp_thms)
qed

section \<open>The keys of the merged object\<close>

text \<open>
  When \<^verbatim>\<open>getDelta\<close> returns, the keys of the merged object are the keys of the
  recorded object together with those keys of the actual object that the recorded
  object lacks and that match no ignore pattern at this level.
\<close>

lemma getDelta_merged_keys:
  assumes "getDelta R A L = Inr (M, ch)"
  shows "fst ` set M =
           fst ` set R \<union> {k \<in> fst ` set A. k \<notin> fst ` set R \<and> \<not> matchesIgnorePattern k L}"
  using assms by (rule getDelta_keys)

lemma getDelta_merged_keys_example:
  "fst ` set [(''a'', JNull), (''x'', JNull), (''b'', JNum 2)] =
     fst ` set [(''a'', JNum 1), (''x'', JObj [(''p'', JNum 1)])] \<union>
     {k \<in> fst ` set [(''b'', JNum 2), (''c'', JNum 3)].
        k \<notin> fst ` set [(''a'', JNum 1), (''x'', JObj [(''p'', JNum 1)])] \<and>
        \<not> matchesIgnorePattern k [''c'']}"
proof -
  have h: "getDelta [(''a'', JNum 1), (''x'', JObj [(''p'', JNum 1)])]
             [(''b'', JNum 2), (''c'', JNum 3)] [''c'']
           = Inr ([(''a'', JNull), (''x'', JNull), (''b'', JNum 2)], True)"
    by code_simp
  show ?thesis by (rule getDelta_merged_keys [OF h])
qed

text \<open>
  C10. Not every run returns a merged object. For the recorded object
  \<^verbatim>\<open>{"k":"v","a":[null]}\<close> and the actual object \<^verbatim>\<open>{"a":[null],"extra":1}\<close>
  with no ignore pattern the run panics in the element loop on the key \<^verbatim>\<open>a\<close>, so
  there is no merged object in which the keys \<^verbatim>\<open>k\<close>, \<^verbatim>\<open>a\<close> and \<^verbatim>\<open>extra\<close>
  could appear.
\<close>

theorem merged_keys_run_panics:
  "getDelta [(''k'', JStr ''v''), (''a'', JArr [JNull])]
            [(''a'', JArr [JNull]), (''extra'', JNum 1)] []
     = Inl NilDereference"
  by code_simp

section \<open>Scoping of simple keys and wildcards\<close>

text \<open>
  C2. With the recorded tree \<^verbatim>\<open>{"metadata":"v1","outer":{"metadata":"v1"}}\<close> and the
  actual tree \<^verbatim>\<open>{"metadata":"v1","outer":{"metadata":"v2"}}\<close>, the simple key
  \<^verbatim>\<open>metadata\<close> does not hide the nested field, so a change is reported and the merged
  tree takes the nested value of the actual tree; the wildcard \<^verbatim>\<open>*.metadata\<close> hides
  it, so no change is reported and the merged tree is the recorded one.
\<close>

theorem getDelta_scoping:
  "getDelta
     [(''metadata'', JStr ''v1''), (''outer'', JObj [(''metadata'', JStr ''v1'')])]
     [(''metadata'', JStr ''v1''), (''outer'', JObj [(''metadata'', JStr ''v2'')])]
     [''metadata'']
   = Inr ([(''metadata'', JStr ''v1''), (''outer'', JObj [(''metadata'', JStr ''v2'')])], True)
   \<and>
   getDelta
     [(''metadata'', JStr ''v1''), (''outer'', JObj [(''metadata'', JStr ''v1'')])]
     [(''metadata'', JStr ''v1''), (''outer'', JObj [(''metadata'', JStr ''v2'')])]
     [''*.metadata'']
   = Inr ([(''metadata'', JStr ''v1''), (''outer'', JObj [(''metadata'', JStr ''v1'')])], False)"
  by code_simp

section \<open>Null elements of recorded arrays\<close>

text \<open>
  C3. \<^verbatim>\<open>getDelta\<close> is not total on JSON trees: with the recorded tree
  \<^verbatim>\<open>{"a":[null]}\<close> and the actual tree \<^verbatim>\<open>{"a":[null]}\<close> the element loop calls
  \<^verbatim>\<open>reflect.TypeOf(nil).Kind()\<close> and the program panics instead of returning a
  result.
\<close>

theorem getDelta_null_element_panics:
  "getDelta [(''a'', JArr [JNull])] [(''a'', JArr [JNull])] [] = Inl NilDereference"
  by code_simp

section \<open>Adding ignore patterns\<close>

text \<open>
  A pattern list that holds every pattern of another one ignores at least the same
  keys, and so does its descended list.
\<close>

lemma matches_mono:
  "set P \<subseteq> set P' \<Longrightarrow> matchesIgnorePattern k P \<Longrightarrow> matchesIgnorePattern k P'"
  unfolding matches_set by blast

lemma descend_mono:
  assumes "set P \<subseteq> set P'"
  shows "set (descendIgnoreList k P) \<subseteq> set (descendIgnoreList k P')"
proof -
  have "set (descendIgnoreList k L) = (\<Union>p \<in> set L. set (
       if take 2 p = ''*.'' then [p]
       else if CHR ''.'' \<notin> set p then []
       else if takeWhile (\<lambda>c. c \<noteq> CHR ''.'') p = k
         then [tl (dropWhile (\<lambda>c. c \<noteq> CHR ''.'') p)]
       else []))" for L
    by (simp only: descendIgnoreList_def descendLoop_eq append_Nil set_concat set_map image_image)
  with assms show ?thesis by blast
qed

lemma size_obj_member: "(k, v) \<in> set R \<Longrightarrow> size v < size (JObj R)"
  by (induction R) auto

lemma size_arr_member: "x \<in> set xs \<Longrightarrow> size x < size (JArr xs)"
  by (induction xs) auto

lemma elemLoop_ok:
  "elemLoop xs ys L (acc, c0) = Inr r \<Longrightarrow> length xs = length ys \<Longrightarrow> i < length xs \<Longrightarrow>
     \<exists>w c. elemDelta (xs ! i) (ys ! i) L = Inr (w, c)"
proof (induction xs arbitrary: ys acc c0 i)
  case Nil
  then show ?case by simp
next
  case (Cons x xs)
  from Cons.prems(2) obtain y ys' where ys: "ys = y # ys'" and len: "length xs = length ys'"
    by (cases ys) auto
  from Cons.prems(1) ys obtain w d where
    ed: "elemDelta x y L = Inr (w, d)" and
    el: "elemLoop xs ys' L (acc @ [w], c0 \<or> d) = Inr r"
    by (auto split: sum.splits)
  show ?case
  proof (cases i)
    case 0
    with ed ys show ?thesis by simp
  next
    case (Suc j)
    with Cons.prems(3) have "j < length xs" by simp
    from Cons.IH [OF el len this] Suc ys show ?thesis by simp
  qed
qed

lemma elem_step:
  assumes IH: "\<And>mx my M' M c. x = JObj mx \<Longrightarrow> y = JObj my \<Longrightarrow>
                 getDelta mx my L' = Inr (M', True) \<Longrightarrow> getDelta mx my L = Inr (M, c) \<Longrightarrow> c"
    and ch': "specElemChanged L' x y"
    and ok: "elemDelta x y L = Inr (w, c)"
  shows "specElemChanged L x y"
proof (cases "\<exists>mx my. x = JObj mx \<and> y = JObj my")
  case True
  then obtain mx my where x: "x = JObj mx" and y: "y = JObj my" by blast
  from ch' x y obtain M' where r': "getDelta mx my L' = Inr (M', True)"
    by (auto simp: specElemChanged_def split: sum.splits)
  from ok x y obtain M d where r: "getDelta mx my L = Inr (M, d)"
    by (auto simp: elemDelta.simps split: sum.splits)
  from IH [OF x y r' r] have d by simp
  with r x y show ?thesis by (simp add: specElemChanged_def)
next
  case False
  with ch' show ?thesis
    by (cases x; cases y) (simp_all add: specElemChanged_def)
qed

lemma keyDelta_ignored:
  "matchesIgnorePattern k L \<Longrightarrow> keyDelta k v A L = Inr (v, False)"
  by (simp add: keyDelta.simps)

lemma keyDelta_objects:
  assumes "\<not> matchesIgnorePattern k L" and "lookupOrNil A k = JObj subB"
  shows "keyDelta k (JObj sub) A L =
           (case getDelta sub subB (descendIgnoreList k L) of
              Inl e \<Rightarrow> Inl e
            | Inr (m, c) \<Rightarrow> if c then Inr (JObj m, True) else Inr (JObj sub, False))"
  using assms by (simp add: keyDelta.simps Let_def)

lemma keyDelta_arrays':
  assumes "\<not> matchesIgnorePattern k L" and "lookupOrNil A k = JArr ys"
  shows "keyDelta k (JArr xs) A L =
           (if length xs \<noteq> length ys then Inr (JArr ys, True)
            else (case elemLoop xs ys (descendIgnoreList k L) ([], False) of
                    Inl e \<Rightarrow> Inl e
                  | Inr (ws, c) \<Rightarrow> if c then Inr (JArr ws, True) else Inr (JArr xs, False)))"
  using assms by (simp add: keyDelta.simps Let_def)

lemma keyDelta_flat:
  assumes "\<not> matchesIgnorePattern k L" and "\<not> matchesIgnorePattern k L'"
    and "\<not> (\<exists>sub subB. v = JObj sub \<and> lookupOrNil A k = JObj subB)"
    and "\<not> (\<exists>xs ys. v = JArr xs \<and> lookupOrNil A k = JArr ys)"
  shows "keyDelta k v A L = keyDelta k v A L'"
  using assms
  by (cases v; cases "lookupOrNil A k") (simp_all add: keyDelta.simps Let_def)

lemma key_step:
  assumes sub: "set P \<subseteq> set P'"
    and IHobj: "\<And>sub subB M' M c. v = JObj sub \<Longrightarrow>
        getDelta sub subB (descendIgnoreList k P') = Inr (M', True) \<Longrightarrow>
        getDelta sub subB (descendIgnoreList k P) = Inr (M, c) \<Longrightarrow> c"
    and IHel: "\<And>xs i mx my M' M c. v = JArr xs \<Longrightarrow> i < length xs \<Longrightarrow> xs ! i = JObj mx \<Longrightarrow>
        getDelta mx my (descendIgnoreList k P') = Inr (M', True) \<Longrightarrow>
        getDelta mx my (descendIgnoreList k P) = Inr (M, c) \<Longrightarrow> c"
    and kd': "keyDelta k v A P' = Inr (w', True)"
    and kd: "keyDelta k v A P = Inr (w, c)"
  shows c
proof -
  have n': "\<not> matchesIgnorePattern k P'"
    using kd' keyDelta_ignored [of k P' v A] by auto
  with sub have n: "\<not> matchesIgnorePattern k P" using matches_mono by blast
  let ?L = "descendIgnoreList k P" and ?L' = "descendIgnoreList k P'"
  consider
      (obj) sub subB where "v = JObj sub" "lookupOrNil A k = JObj subB"
    | (arr) xs ys where "v = JArr xs" "lookupOrNil A k = JArr ys"
    | (flat) "\<not> (\<exists>sub subB. v = JObj sub \<and> lookupOrNil A k = JObj subB)"
             "\<not> (\<exists>xs ys. v = JArr xs \<and> lookupOrNil A k = JArr ys)"
    by blast
  then show ?thesis
  proof cases
    case obj
    from kd' obj keyDelta_objects [OF n' obj(2), of sub]
    obtain M' where r': "getDelta sub subB ?L' = Inr (M', True)"
      by (auto split: sum.splits if_splits)
    from kd obj keyDelta_objects [OF n obj(2), of sub]
    obtain M d where r: "getDelta sub subB ?L = Inr (M, d)" and cd: "c = d"
      by (auto split: sum.splits if_splits)
    from IHobj [OF obj(1) r' r] cd show ?thesis by simp
  next
    case arr
    show ?thesis
    proof (cases "length xs = length ys")
      case False
      with kd arr keyDelta_arrays' [OF n arr(2), of xs] show ?thesis by simp
    next
      case True
      from kd' arr True keyDelta_arrays' [OF n' arr(2), of xs]
      obtain ws' where el': "elemLoop xs ys ?L' ([], False) = Inr (ws', True)"
        by (auto split: sum.splits if_splits)
      from kd arr True keyDelta_arrays' [OF n arr(2), of xs]
      obtain ws d where el: "elemLoop xs ys ?L ([], False) = Inr (ws, d)" and cd: "c = d"
        by (auto split: sum.splits if_splits)
      from elemLoop_Inr [OF el' True] obtain i where
        i: "i < length xs" and ch': "specElemChanged ?L' (xs ! i) (ys ! i)" by auto
      from elemLoop_ok [OF el True i] obtain w0 c0 where
        ok: "elemDelta (xs ! i) (ys ! i) ?L = Inr (w0, c0)" by blast
      have "specElemChanged ?L (xs ! i) (ys ! i)"
      proof (rule elem_step [OF _ ch' ok])
        fix mx my M' M c
        assume "xs ! i = JObj mx" "ys ! i = JObj my"
          "getDelta mx my ?L' = Inr (M', True)" "getDelta mx my ?L = Inr (M, c)"
        then show c using IHel [OF arr(1) i] by blast
      qed
      with i elemLoop_Inr [OF el True] have d by auto
      with cd show ?thesis by simp
    qed
  next
    case flat
    from keyDelta_flat [OF n n' flat] kd kd' show ?thesis by simp
  qed
qed

lemma getDelta_changed_antimono:
  assumes "set P \<subseteq> set P'"
    and "getDelta R A P' = Inr (M', True)"
    and "getDelta R A P = Inr (M, ch)"
  shows ch
  using assms
proof (induction "size (JObj R)" arbitrary: R A P P' M M' ch rule: less_induct)
  case less
  from getDelta_changed [OF less.prems(2)] have
    "(\<exists>(k, v) \<in> set R. \<exists>w. keyDelta k v A P' = Inr (w, True)) \<or>
     (\<exists>k \<in> fst ` set A. k \<notin> fst ` set R \<and> \<not> matchesIgnorePattern k P')"
    by simp
  then consider
      (key) k v w' where "(k, v) \<in> set R" "keyDelta k v A P' = Inr (w', True)"
    | (extra) k where "k \<in> fst ` set A" "k \<notin> fst ` set R" "\<not> matchesIgnorePattern k P'"
    by blast
  then show ?case
  proof cases
    case extra
    from extra(3) less.prems(1) have "\<not> matchesIgnorePattern k P" using matches_mono by blast
    with extra getDelta_changed [OF less.prems(3)] show ?thesis by blast
  next
    case key
    from getDelta_ok [OF less.prems(3) key(1)] obtain w c where
      kd: "keyDelta k v A P = Inr (w, c)" by blast
    have dm: "set (descendIgnoreList k P) \<subseteq> set (descendIgnoreList k P')"
      using less.prems(1) by (rule descend_mono)
    have c
    proof (rule key_step [OF less.prems(1) _ _ key(2) kd])
      fix sub subB M' M c
      assume v: "v = JObj sub"
        and r': "getDelta sub subB (descendIgnoreList k P') = Inr (M', True)"
        and r: "getDelta sub subB (descendIgnoreList k P) = Inr (M, c)"
      from key(1) v have "size (JObj sub) < size (JObj R)" using size_obj_member by blast
      from less.hyps [OF this dm r' r] show c .
    next
      fix xs i mx my M' M c
      assume v: "v = JArr xs" and i: "i < length xs" and x: "xs ! i = JObj mx"
        and r': "getDelta mx my (descendIgnoreList k P') = Inr (M', True)"
        and r: "getDelta mx my (descendIgnoreList k P) = Inr (M, c)"
      from i x have "JObj mx \<in> set xs" by (metis nth_mem)
      then have "size (JObj mx) < size (JArr xs)" by (rule size_arr_member)
      also from key(1) v have "\<dots> < size (JObj R)" using size_obj_member by blast
      finally have "size (JObj mx) < size (JObj R)" .
      from less.hyps [OF this dm r' r] show c .
    qed
    with kd have "keyDelta k v A P = Inr (w, True)" by simp
    with key(1) have "\<exists>(k, v) \<in> set R. \<exists>w. keyDelta k v A P = Inr (w, True)" by blast
    with getDelta_changed [OF less.prems(3)] show ?thesis by simp
  qed
qed

text \<open>
  C9. With the recorded tree \<^verbatim>\<open>{"a":[null],"b":1}\<close> and the actual tree
  \<^verbatim>\<open>{"a":[null],"b":2}\<close>, the run with the ignore list \<^verbatim>\<open>["a"]\<close> reports a
  change, and the run with the empty ignore list, whose patterns all occur in
  \<^verbatim>\<open>["a"]\<close>, panics in the element loop and reports nothing. On the runs that
  return, \<open>getDelta_changed_antimono\<close> above holds.
\<close>

theorem fewer_patterns_panic:
  "getDelta [(''a'', JArr [JNull]), (''b'', JNum 1)]
            [(''a'', JArr [JNull]), (''b'', JNum 2)] [''a'']
     = Inr ([(''a'', JArr [JNull]), (''b'', JNum 2)], True)
   \<and> getDelta [(''a'', JArr [JNull]), (''b'', JNum 1)]
              [(''a'', JArr [JNull]), (''b'', JNum 2)] []
     = Inl NilDereference"
  by code_simp

section \<open>Trees without null array elements\<close>

text \<open>
  The panic of the element loop is the only way \<^verbatim>\<open>getDelta\<close> fails: when no array
  of the recorded tree has a \<^verbatim>\<open>null\<close> element, it returns a result for every actual
  tree and every ignore list. A value of another kind than the recorded one is stored
  as a change.
\<close>

lemma elemLoop_total:
  assumes "\<And>x y. x \<in> set xs \<Longrightarrow> \<exists>r. elemDelta x y L = Inr r"
    and "length xs = length ys"
  shows "\<exists>r. elemLoop xs ys L st = Inr r"
  using assms
proof (induction xs arbitrary: ys st)
  case Nil
  show ?case by (rule exI [of _ st]) simp
next
  case (Cons x xs)
  from Cons.prems(2) obtain y ys' where ys: "ys = y # ys'" and len: "length xs = length ys'"
    by (cases ys) auto
  obtain acc c0 where st: "st = (acc, c0)" by (cases st)
  from Cons.prems(1) [of x y] obtain w d where ed: "elemDelta x y L = Inr (w, d)" by auto
  have "\<exists>r. elemLoop xs ys' L (acc @ [w], c0 \<or> d) = Inr r"
  proof (rule Cons.IH [OF _ len])
    fix x' y' assume "x' \<in> set xs"
    then show "\<exists>r. elemDelta x' y' L = Inr r" using Cons.prems(1) [of x' y'] by simp
  qed
  with ys st ed show ?case by simp
qed

lemma elemDelta_total:
  assumes "x \<noteq> JNull"
    and "\<And>mx my. x = JObj mx \<Longrightarrow> \<exists>r. getDelta mx my L = Inr r"
  shows "\<exists>r. elemDelta x y L = Inr r"
proof (cases "\<exists>mx my. x = JObj mx \<and> y = JObj my")
  case True
  then obtain mx my where x: "x = JObj mx" and y: "y = JObj my" by blast
  from assms(2) [OF x, of my] obtain M c where "getDelta mx my L = Inr (M, c)" by auto
  with x y show ?thesis by (auto simp: elemDelta.simps)
next
  case False
  with assms(1) show ?thesis
    by (cases x; cases y) (auto simp: elemDelta.simps)
qed

lemma keyDelta_total:
  assumes obj: "\<And>sub subB L'. v = JObj sub \<Longrightarrow> \<exists>r. getDelta sub subB L' = Inr r"
    and arr: "\<And>xs x y L'. v = JArr xs \<Longrightarrow> x \<in> set xs \<Longrightarrow> \<exists>r. elemDelta x y L' = Inr r"
  shows "\<exists>r. keyDelta k v A L = Inr r"
proof (cases "matchesIgnorePattern k L")
  case True
  then show ?thesis by (auto simp: keyDelta_ignored)
next
  case n: False
  consider
      (obj) sub subB where "v = JObj sub" "lookupOrNil A k = JObj subB"
    | (arr) xs ys where "v = JArr xs" "lookupOrNil A k = JArr ys"
    | (flat) "\<not> (\<exists>sub subB. v = JObj sub \<and> lookupOrNil A k = JObj subB)"
             "\<not> (\<exists>xs ys. v = JArr xs \<and> lookupOrNil A k = JArr ys)"
    by blast
  then show ?thesis
  proof cases
    case obj
    from assms(1) [OF obj(1), of subB "descendIgnoreList k L"] obtain M c where
      "getDelta sub subB (descendIgnoreList k L) = Inr (M, c)" by auto
    with obj keyDelta_objects [OF n obj(2), of sub] show ?thesis by auto
  next
    case arr
    show ?thesis
    proof (cases "length xs = length ys")
      case False
      with arr keyDelta_arrays' [OF n arr(2), of xs] show ?thesis by auto
    next
      case True
      have "\<exists>r. elemLoop xs ys (descendIgnoreList k L) ([], False) = Inr r"
      proof (rule elemLoop_total [OF _ True])
        fix x y assume "x \<in> set xs"
        with assms(2) [OF arr(1)] show "\<exists>r. elemDelta x y (descendIgnoreList k L) = Inr r"
          by blast
      qed
      then obtain ws d where "elemLoop xs ys (descendIgnoreList k L) ([], False) = Inr (ws, d)"
        by auto
      with arr True keyDelta_arrays' [OF n arr(2), of xs] show ?thesis by auto
    qed
  next
    case flat
    with n show ?thesis
      by (cases v; cases "lookupOrNil A k") (auto simp: keyDelta.simps Let_def)
  qed
qed

lemma getDelta_total_null_free:
  assumes "nullFreeArrays (JObj R)"
  shows "\<exists>M ch. getDelta R A L = Inr (M, ch)"
  using assms
proof (induction "size (JObj R)" arbitrary: R A L rule: less_induct)
  case less
  show ?case
  proof (rule getDelta_total)
    fix k v assume kv: "(k, v) \<in> set R"
    with less.prems have nf: "nullFreeArrays v" by (auto simp: list_all_iff)
    from kv have sz: "size v < size (JObj R)" by (rule size_obj_member)
    show "\<exists>r. keyDelta k v A L = Inr r"
    proof (rule keyDelta_total)
      fix sub subB L' assume v: "v = JObj sub"
      from less.hyps [of sub subB L'] sz nf v
      show "\<exists>r. getDelta sub subB L' = Inr r" by auto
    next
      fix xs x y L' assume v: "v = JArr xs" and x: "x \<in> set xs"
      from nf v x have xn: "x \<noteq> JNull" and xf: "nullFreeArrays x" by (auto simp: list_all_iff)
      show "\<exists>r. elemDelta x y L' = Inr r"
      proof (rule elemDelta_total [OF xn])
        fix mx my assume xo: "x = JObj mx"
        from x have "size x < size (JArr xs)" by (rule size_arr_member)
        with sz v xo have "size (JObj mx) < size (JObj R)" by simp
        from less.hyps [OF this, of my L'] xf xo
        show "\<exists>r. getDelta mx my L' = Inr r" by auto
      qed
    qed
  qed
qed

section \<open>Patch synthesis\<close>

text \<open>
  C1, as the claim states it, fails: for the desired data
  \<^verbatim>\<open>{"role":{"name":"x","priority":5}}\<close>, the API data
  \<^verbatim>\<open>{"role":{"name":"x","priority":3,"@metadata":{"ts":1}}}\<close>, the ignore list
  \<^verbatim>\<open>["*.metadata"]\<close> and the identity field \<^verbatim>\<open>oid\<close>, the requests sent are not
  the single replacement of \<^verbatim>\<open>priority\<close>.
\<close>

theorem patch_scenario_not_replace_only:
  "fst (patchMidpointObject alwaysOk
     \<lparr>data = [(''role'', JObj [(''name'', JStr ''x''), (''priority'', JNum 5)])],
      apiData = [(''role'', JObj [(''name'', JStr ''x''), (''priority'', JNum 3),
                                  (''@metadata'', JObj [(''ts'', JNum 1)])])],
      ignoreChangesTo = [''*.metadata''],
      idAttribute = ''oid''\<rparr>)
   \<noteq> [\<lparr>modificationType = ''replace'', path = ''priority'', itemValue = Some (JNum 5)\<rparr>]"
  by code_simp

text \<open>
  C1, amended. On that input exactly two requests are sent, in this order: the
  replacement of \<^verbatim>\<open>priority\<close> by 5 and the deletion of \<^verbatim>\<open>@metadata\<close>; there is
  no addition, and no error is returned. The pattern \<^verbatim>\<open>*.metadata\<close> stands for
  the field name \<^verbatim>\<open>metadata\<close>, which is not the key \<^verbatim>\<open>@metadata\<close>.
\<close>

theorem patch_scenario_replace_then_delete:
  "patchMidpointObject alwaysOk
     \<lparr>data = [(''role'', JObj [(''name'', JStr ''x''), (''priority'', JNum 5)])],
      apiData = [(''role'', JObj [(''name'', JStr ''x''), (''priority'', JNum 3),
                                  (''@metadata'', JObj [(''ts'', JNum 1)])])],
      ignoreChangesTo = [''*.metadata''],
      idAttribute = ''oid''\<rparr>
   = ([\<lparr>modificationType = ''replace'', path = ''priority'', itemValue = Some (JNum 5)\<rparr>,
       \<lparr>modificationType = ''delete'', path = ''@metadata'', itemValue = None\<rparr>],
      None)"
  by code_simp

text \<open>
  With the pattern \<^verbatim>\<open>*.@metadata\<close> in place of \<^verbatim>\<open>*.metadata\<close> the replacement
  of \<^verbatim>\<open>priority\<close> is the only request.
\<close>

lemma patch_scenario_at_metadata_pattern:
  "patchMidpointObject alwaysOk
     \<lparr>data = [(''role'', JObj [(''name'', JStr ''x''), (''priority'', JNum 5)])],
      apiData = [(''role'', JObj [(''name'', JStr ''x''), (''priority'', JNum 3),
                                  (''@metadata'', JObj [(''ts'', JNum 1)])])],
      ignoreChangesTo = [''*.@metadata''],
      idAttribute = ''oid''\<rparr>
   = ([\<lparr>modificationType = ''replace'', path = ''priority'', itemValue = Some (JNum 5)\<rparr>],
      None)"
  by code_simp

text \<open>
  C6, as the claim states it, fails: when the single top-level keys differ, the maps
  are not unwrapped. For the desired data \<^verbatim>\<open>{"a":{"x":1}}\<close> and the API data
  \<^verbatim>\<open>{"b":{"x":1}}\<close> the requests sent are not those synthesized over the two inner
  objects.
\<close>

theorem unwrap_different_keys_counterexample:
  "patchMidpointObject alwaysOk
     \<lparr>data = [(''a'', JObj [(''x'', JNum 1)])],
      apiData = [(''b'', JObj [(''x'', JNum 1)])],
      ignoreChangesTo = [],
      idAttribute = ''oid''\<rparr>
   \<noteq> synthesize alwaysOk
     \<lparr>data = [(''a'', JObj [(''x'', JNum 1)])],
      apiData = [(''b'', JObj [(''x'', JNum 1)])],
      ignoreChangesTo = [],
      idAttribute = ''oid''\<rparr>
     [(''x'', JNum 1)] [(''x'', JNum 1)]"
  by code_simp

text \<open>
  C6, amended. When the desired data and the API data each have exactly one top-level
  key, the two keys are the same string and both values are objects, the patch
  operations are those synthesized over the two inner objects.
\<close>

theorem unwrap_same_key:
  assumes "data obj = [(k, JObj d)]" and "apiData obj = [(k, JObj a)]"
  shows "patchMidpointObject transportOk obj = synthesize transportOk obj d a"
  using assms by (simp add: patchMidpointObject_def unwrap_def)

theorem unwrap_same_key_witness:
  "patchMidpointObject alwaysOk
     \<lparr>data = [(''role'', JObj [(''priority'', JNum 5)])],
      apiData = [(''role'', JObj [(''priority'', JNum 3)])],
      ignoreChangesTo = [],
      idAttribute = ''oid''\<rparr>
   = synthesize alwaysOk
     \<lparr>data = [(''role'', JObj [(''priority'', JNum 5)])],
      apiData = [(''role'', JObj [(''priority'', JNum 3)])],
      ignoreChangesTo = [],
      idAttribute = ''oid''\<rparr>
     [(''priority'', JNum 5)] [(''priority'', JNum 3)]
   \<and> fst (synthesize alwaysOk
     \<lparr>data = [(''role'', JObj [(''priority'', JNum 5)])],
      apiData = [(''role'', JObj [(''priority'', JNum 3)])],
      ignoreChangesTo = [],
      idAttribute = ''oid''\<rparr>
     [(''priority'', JNum 5)] [(''priority'', JNum 3)])
   = [\<lparr>modificationType = ''replace'', path = ''priority'', itemValue = Some (JNum 5)\<rparr>]"
proof -
  have "patchMidpointObject alwaysOk
     \<lparr>data = [(''role'', JObj [(''priority'', JNum 5)])],
      apiData = [(''role'', JObj [(''priority'', JNum 3)])],
      ignoreChangesTo = [],
      idAttribute = ''oid''\<rparr>
   = synthesize alwaysOk
     \<lparr>data = [(''role'', JObj [(''priority'', JNum 5)])],
      apiData = [(''role'', JObj [(''priority'', JNum 3)])],
      ignoreChangesTo = [],
      idAttribute = ''oid''\<rparr>
     [(''priority'', JNum 5)] [(''priority'', JNum 3)]"
    by (rule unwrap_same_key) simp_all
  moreover have "fst (synthesize alwaysOk
     \<lparr>data = [(''role'', JObj [(''priority'', JNum 5)])],
      apiData = [(''role'', JObj [(''priority'', JNum 3)])],
      ignoreChangesTo = [],
      idAttribute = ''oid''\<rparr>
     [(''priority'', JNum 5)] [(''priority'', JNum 3)])
   = [\<lparr>modificationType = ''replace'', path = ''priority'', itemValue = Some (JNum 5)\<rparr>]"
    by code_simp
  ultimately show ?thesis by (rule conjI)
qed

text \<open>When the two single keys differ, the outer maps themselves are patched.\<close>

lemma unwrap_different_keys:
  assumes "data obj = [(k1, v1)]" and "apiData obj = [(k2, v2)]" and "k1 \<noteq> k2"
  shows "patchMidpointObject transportOk obj =
           synthesize transportOk obj (data obj) (apiData obj)"
  using assms by (simp add: patchMidpointObject_def unwrap_def)

end
